theory Spec2Isabelle
  imports Main "HOL-Library.Sublist"
begin

section \<open>Strings of the standard library\<close>

text \<open>
  A Python \<open>str\<close> is modelled as a \<open>string\<close> (a list of characters); one \<open>char\<close>
  stands for one code point, so the model covers text whose code points are below 256.
  The three characters that cannot be written inside a literal get a name.
\<close>

abbreviation NL :: char where "NL \<equiv> CHR 0x0A"
abbreviation SQ :: char where "SQ \<equiv> CHR 0x27"
abbreviation DQ :: char where "DQ \<equiv> CHR 0x22"

text \<open>
  \<open>s.replace(old, new)\<close>: the occurrences of \<open>old\<close> are found from the left and do
  not overlap. For an empty \<open>old\<close> Python puts \<open>new\<close> before every character and at
  the end.
\<close>

function str_replace :: "string \<Rightarrow> string \<Rightarrow> string \<Rightarrow> string" where
  "str_replace old new [] = (if old = [] then new else [])"
| "str_replace old new (c # cs) =
     (if old = [] then new @ c # str_replace old new cs
      else if take (length old) (c # cs) = old
        then new @ str_replace old new (drop (length old) (c # cs))
      else c # str_replace old new cs)"
  by pat_completeness auto
termination
  by (relation "measure (\<lambda>(old, new, s). length s)") auto

text \<open>\<open>sep.join(xs)\<close>.\<close>

fun join :: "string \<Rightarrow> string list \<Rightarrow> string" where
  "join sep [] = []"
| "join sep [x] = x"
| "join sep (x # y # ys) = x @ sep @ join sep (y # ys)"

text \<open>\<open>s.split(sep)\<close> for a separator of one character: the empty string gives \<open>['']\<close>.\<close>

fun split_char :: "char \<Rightarrow> string \<Rightarrow> string list" where
  "split_char sep [] = [[]]"
| "split_char sep (c # cs) =
     (if c = sep then [] # split_char sep cs
      else (case split_char sep cs of
              [] \<Rightarrow> [[c]]
            | p # ps \<Rightarrow> (c # p) # ps))"

text \<open>\<open>str(n)\<close> for a non-negative integer: its decimal digits.\<close>

definition digit_char :: "nat \<Rightarrow> char" where
  "digit_char d = ''0123456789'' ! d"

function str_nat :: "nat \<Rightarrow> string" where
  "str_nat n = (if n < 10 then [digit_char n] else str_nat (n div 10) @ [digit_char (n mod 10)])"
  by pat_completeness auto
termination
  by (relation "measure (\<lambda>n. n)") auto

declare str_nat.simps [simp del]

section \<open>Variable substitution\<close>

text \<open>
  \<open>TemplateService.replace_variables\<close>: the dictionary is read in insertion order, so it
  is an association list; each key gets one \<open>replace\<close> pass over the result so far.
\<close>

definition placeholder :: "string \<Rightarrow> string" where
  "placeholder key = ''{'' @ key @ ''}''"

definition replace_variables :: "string \<Rightarrow> (string \<times> string) list \<Rightarrow> string" where
  "replace_variables template variables =
     fold (\<lambda>(key, val) result. str_replace (placeholder key) val result) variables template"

section \<open>Parameter extraction\<close>

text \<open>
  \<open>re.findall(r'\{([^}]+)\}', text)\<close>: the scan goes from the left. At an opening brace
  the class \<open>[^}]+\<close> takes every character up to the next closing brace; the match
  succeeds when at least one character was taken and a closing brace follows, and the
  scan resumes behind that brace. Otherwise the scan moves one character on.
\<close>

function findall_params :: "string \<Rightarrow> string list" where
  "findall_params [] = []"
| "findall_params (c # cs) =
     (if c = CHR ''{'' \<and> takeWhile (\<lambda>x. x \<noteq> CHR ''}'') cs \<noteq> []
          \<and> dropWhile (\<lambda>x. x \<noteq> CHR ''}'') cs \<noteq> []
      then takeWhile (\<lambda>x. x \<noteq> CHR ''}'') cs
             # findall_params (tl (dropWhile (\<lambda>x. x \<noteq> CHR ''}'') cs))
      else findall_params cs)"
  by pat_completeness auto
termination
proof (relation "measure length")
  fix c :: char and cs :: string
  have "length (dropWhile (\<lambda>x. x \<noteq> CHR ''}'') cs) \<le> length cs"
    by (rule length_dropWhile_le)
  then show "(tl (dropWhile (\<lambda>x. x \<noteq> CHR ''}'') cs), c # cs) \<in> measure length"
    by simp
qed auto

definition validate_template_params :: "string \<Rightarrow> string set" where
  "validate_template_params text = set (findall_params text)"

definition get_template_params :: "string \<Rightarrow> string \<Rightarrow> string set" where
  "get_template_params subject content =
     validate_template_params subject \<union> validate_template_params content"

text \<open>\<open>len(undefined_params) == 0\<close> is the first component of the result.\<close>

definition validate_template :: "string \<Rightarrow> string \<Rightarrow> string set \<Rightarrow> bool \<times> string set" where
  "validate_template subject content available_params =
     (let template_params = get_template_params subject content;
          undefined_params = template_params - available_params
      in (card undefined_params = 0, undefined_params))"

section \<open>The renderer\<close>

text \<open>
  \<open>html.escape(s)\<close> with its default \<open>quote=True\<close>: five \<open>replace\<close> passes, the
  ampersand first.
\<close>

definition html_escape :: "string \<Rightarrow> string" where
  "html_escape s =
     str_replace [SQ] ''&#x27;''
       (str_replace [DQ] ''&quot;''
         (str_replace ''>'' ''&gt;''
           (str_replace ''<'' ''&lt;''
             (str_replace ''&'' ''&amp;'' s))))"

text \<open>\<open>s.strip()\<close>: white space is removed at both ends.\<close>

definition is_space :: "char \<Rightarrow> bool" where
  "is_space c \<longleftrightarrow> c \<in> set [CHR 0x09, CHR 0x0A, CHR 0x0B, CHR 0x0C, CHR 0x0D,
       CHR 0x1C, CHR 0x1D, CHR 0x1E, CHR 0x1F, CHR 0x20, CHR 0x85, CHR 0xA0]"

definition strip :: "string \<Rightarrow> string" where
  "strip s = rev (dropWhile is_space (rev (dropWhile is_space s)))"

text \<open>\<open>s.startswith(p)\<close> and \<open>s.split(':', 1)\<close>.\<close>

definition startswith :: "string \<Rightarrow> string \<Rightarrow> bool" where
  "startswith s p \<longleftrightarrow> take (length p) s = p"

definition split_colon1 :: "string \<Rightarrow> string list" where
  "split_colon1 s =
     (case dropWhile (\<lambda>x. x \<noteq> CHR '':'') s of
        [] \<Rightarrow> [s]
      | _ # rest \<Rightarrow> [takeWhile (\<lambda>x. x \<noteq> CHR '':'') s, rest])"

text \<open>
  The template held by the service. The tags are a dictionary from \<open>str(offset)\<close> to the
  list of tag names at that offset.
\<close>

type_synonym tag_map = "string \<Rightarrow> string list option"

record template_service =
  subject :: string
  content :: string
  is_html :: bool
  tags :: tag_map
  font_family :: string
  font_size :: string

definition init_template :: template_service where
  "init_template = \<lparr>subject = [], content = [], is_html = True, tags = Map.empty,
     font_family = ''Times New Roman'', font_size = ''12''\<rparr>"

definition update_template ::
  "string \<Rightarrow> string \<Rightarrow> bool \<Rightarrow> tag_map \<Rightarrow> string \<Rightarrow> string \<Rightarrow> template_service \<Rightarrow> template_service" where
  "update_template subj cont html tgs family fsize self =
     \<lparr>subject = subj, content = cont, is_html = html, tags = tgs,
      font_family = family, font_size = fsize\<rparr>"

text \<open>
  \<open>{tag for tag in self._tags.get(str(i), []) if tag != 'sel'}\<close> is a Python set. The
  language does not fix the order in which a set of strings is iterated, so the order is
  a parameter: \<open>it\<close> maps the sequence of inserted tags to the sequence the set yields.
  Two sets are compared by their elements.
\<close>

type_synonym set_order = "string list \<Rightarrow> string list"

definition valid_order :: "set_order \<Rightarrow> bool" where
  "valid_order it \<longleftrightarrow> (\<forall>xs. set (it xs) = set xs \<and> distinct (it xs))"

definition inserted_tags :: "tag_map \<Rightarrow> nat \<Rightarrow> string list" where
  "inserted_tags tgs i =
     filter (\<lambda>tag. tag \<noteq> ''sel'') (case tgs (str_nat i) of None \<Rightarrow> [] | Some ts \<Rightarrow> ts)"

definition tag_set :: "tag_map \<Rightarrow> nat \<Rightarrow> string set" where
  "tag_set tgs i = set (inserted_tags tgs i)"

text \<open>The inner loop: \<open>end_pos\<close> advances while the next offset has the same tag set.\<close>

function scan_end :: "tag_map \<Rightarrow> nat \<Rightarrow> nat \<Rightarrow> string set \<Rightarrow> nat \<Rightarrow> nat" where
  "scan_end tgs current_pos n current_tags end_pos =
     (if end_pos < n then
        (if tag_set tgs (current_pos + end_pos) \<noteq> current_tags then end_pos
         else scan_end tgs current_pos n current_tags (end_pos + 1))
      else end_pos)"
  by pat_completeness auto
termination
  by (relation "measure (\<lambda>(tgs, current_pos, n, current_tags, end_pos). n - end_pos)") auto

declare scan_end.simps [simp del]

lemma scan_end_ge: "end_pos \<le> scan_end tgs current_pos n current_tags end_pos"
proof (induction tgs current_pos n current_tags end_pos rule: scan_end.induct)
  case (1 tgs current_pos n current_tags end_pos)
  show ?case
  proof (cases "end_pos < n \<and> tag_set tgs (current_pos + end_pos) = current_tags")
    case True
    then have "end_pos + 1 \<le> scan_end tgs current_pos n current_tags (end_pos + 1)"
      using "1.IH" by simp
    then show ?thesis using True by (subst scan_end.simps) simp
  next
    case False
    then show ?thesis by (subst scan_end.simps) auto
  qed
qed

lemma scan_end_le: "end_pos \<le> n \<Longrightarrow> scan_end tgs current_pos n current_tags end_pos \<le> n"
proof (induction tgs current_pos n current_tags end_pos rule: scan_end.induct)
  case (1 tgs current_pos n current_tags end_pos)
  show ?case
  proof (cases "end_pos < n \<and> tag_set tgs (current_pos + end_pos) = current_tags")
    case True
    then have "scan_end tgs current_pos n current_tags (end_pos + 1) \<le> n"
      using "1.IH" by simp
    then show ?thesis using True by (subst scan_end.simps) simp
  next
    case False
    then show ?thesis using "1.prems" by (subst scan_end.simps) auto
  qed
qed

text \<open>
  The outer loop over one paragraph of length \<open>n\<close>: the pairs \<open>(pos, end_pos)\<close> it
  visits, in order.
\<close>

function run_bounds :: "tag_map \<Rightarrow> nat \<Rightarrow> nat \<Rightarrow> nat \<Rightarrow> (nat \<times> nat) list" where
  "run_bounds tgs current_pos n pos =
     (if pos < n then
        (pos, scan_end tgs current_pos n (tag_set tgs (current_pos + pos)) (pos + 1))
          # run_bounds tgs current_pos n
              (scan_end tgs current_pos n (tag_set tgs (current_pos + pos)) (pos + 1))
      else [])"
  by pat_completeness auto
termination
proof (relation "measure (\<lambda>(tgs, current_pos, n, pos). n - pos)")
  fix tgs :: tag_map and current_pos n pos :: nat
  assume "pos < n"
  moreover have "pos + 1 \<le> scan_end tgs current_pos n (tag_set tgs (current_pos + pos)) (pos + 1)"
    by (rule scan_end_ge)
  ultimately show "((tgs, current_pos, n,
      scan_end tgs current_pos n (tag_set tgs (current_pos + pos)) (pos + 1)),
      (tgs, current_pos, n, pos)) \<in> measure (\<lambda>(tgs, current_pos, n, pos). n - pos)"
    by simp
qed simp

declare run_bounds.simps [simp del]

text \<open>
  The style declarations of a run: the three fixed checks, then the \<open>for\<close> loop over
  the set, which appends a font declaration for each tag it meets.
\<close>

definition font_style :: "string \<Rightarrow> string list" where
  "font_style tag =
     (if startswith tag ''font-family:'' then
        (if length (split_colon1 tag) = 2
         then [''font-family: '' @ [SQ] @ strip (split_colon1 tag ! 1) @ [SQ]] else [])
      else if startswith tag ''font-size:'' then
        (if length (split_colon1 tag) = 2
         then [''font-size: '' @ strip (split_colon1 tag ! 1) @ ''pt''] else [])
      else [])"

definition build_styles :: "string set \<Rightarrow> string list \<Rightarrow> string list" where
  "build_styles current_tags iteration =
     (if ''bold'' \<in> current_tags then [''font-weight: bold''] else [])
     @ (if ''italic'' \<in> current_tags then [''font-style: italic''] else [])
     @ (if ''underline'' \<in> current_tags then [''text-decoration: underline''] else [])
     @ concat (map font_style iteration)"

definition escape_text :: "string \<Rightarrow> string" where
  "escape_text segment = str_replace '' '' ''&nbsp;'' (html_escape segment)"

definition segment_of :: "string \<Rightarrow> nat \<times> nat \<Rightarrow> string" where
  "segment_of paragraph r = take (snd r - fst r) (drop (fst r) paragraph)"

text \<open>
  What the loop body appends for the run \<open>(pos, end_pos)\<close>. Emptiness and membership are
  asked of the set; only the \<open>for\<close> loop over the set depends on the iteration order.
\<close>

definition span_open :: "string \<Rightarrow> string" where
  "span_open style_attr = ''<span style='' @ [DQ] @ style_attr @ [DQ] @ ''>''"

definition render_run :: "set_order \<Rightarrow> tag_map \<Rightarrow> nat \<Rightarrow> string \<Rightarrow> nat \<times> nat \<Rightarrow> string" where
  "render_run it tgs current_pos paragraph r =
     (let current_tags = tag_set tgs (current_pos + fst r);
          escaped_text = escape_text (segment_of paragraph r)
      in if current_tags \<noteq> {}
         then span_open (join ''; ''
                (build_styles current_tags (it (inserted_tags tgs (current_pos + fst r)))))
                @ escaped_text @ ''</span>''
         else escaped_text)"

definition render_paragraph :: "set_order \<Rightarrow> tag_map \<Rightarrow> nat \<Rightarrow> string \<Rightarrow> string list" where
  "render_paragraph it tgs current_pos paragraph =
     map (render_run it tgs current_pos paragraph)
       (run_bounds tgs current_pos (length paragraph) 0)"

text \<open>
  The loop over the paragraphs, with its three variables \<open>current_pos\<close>, \<open>last_empty\<close>
  and \<open>html_lines\<close>.
\<close>

fun render_loop ::
  "set_order \<Rightarrow> tag_map \<Rightarrow> string list \<Rightarrow> nat \<Rightarrow> bool \<Rightarrow> string list \<Rightarrow> nat \<times> bool \<times> string list" where
  "render_loop it tgs [] current_pos last_empty html_lines =
     (current_pos, last_empty, html_lines)"
| "render_loop it tgs (paragraph # rest) current_pos last_empty html_lines =
     (if paragraph = [] then
        (if last_empty then render_loop it tgs rest (current_pos + 1) last_empty html_lines
         else render_loop it tgs rest (current_pos + 1) True (html_lines @ [''<p>&nbsp;</p>'']))
      else render_loop it tgs rest (current_pos + length paragraph + 1) False
             (html_lines @ [''<p>''] @ render_paragraph it tgs current_pos paragraph @ [''</p>'']))"

definition html_lines_of :: "set_order \<Rightarrow> template_service \<Rightarrow> string list" where
  "html_lines_of it self =
     snd (snd (render_loop it (tags self) (split_char NL (content self)) 0 False []))"

definition get_html_content :: "set_order \<Rightarrow> template_service \<Rightarrow> string" where
  "get_html_content it self = join [NL] (html_lines_of it self)"


text \<open>A service holding the given content and tags, as the tests build one.\<close>

definition service_of :: "string \<Rightarrow> tag_map \<Rightarrow> template_service" where
  "service_of cont tgs =
     update_template [] cont True tgs ''Times New Roman'' ''12'' init_template"

text \<open>The tag map of the tests: the same tag list at the offsets 0 to 4.\<close>

definition hello_tags :: "string list \<Rightarrow> tag_map" where
  "hello_tags ts = map_of (map (\<lambda>i. (str_nat i, ts)) [0, 1, 2, 3, 4])"

text \<open>
  What it means for a list of pairs to cut the offsets from \<open>pos\<close> up to \<open>n\<close> into
  maximal runs: each pair starts where the one before ended, is not empty, holds one tag
  set throughout, and stops only at the end of the paragraph or where the tag set
  changes.
\<close>

fun maximal_runs :: "tag_map \<Rightarrow> nat \<Rightarrow> nat \<Rightarrow> nat \<Rightarrow> (nat \<times> nat) list \<Rightarrow> bool" where
  "maximal_runs tgs current_pos n pos [] \<longleftrightarrow> pos = n"
| "maximal_runs tgs current_pos n pos (r # rs) \<longleftrightarrow>
     fst r = pos \<and> pos < snd r \<and> snd r \<le> n
     \<and> (\<forall>i \<in> {pos ..< snd r}. tag_set tgs (current_pos + i) = tag_set tgs (current_pos + pos))
     \<and> (snd r < n \<longrightarrow> tag_set tgs (current_pos + snd r) \<noteq> tag_set tgs (current_pos + pos))
     \<and> maximal_runs tgs current_pos n (snd r) rs"

text \<open>
  Two tag maps that differ only in where the selection marker \<open>sel\<close> occurs: at every
  key the tag lists agree once \<open>sel\<close> is taken out (a missing key counts as the empty list,
  as \<open>get\<close> reads it).
\<close>

definition same_up_to_sel :: "tag_map \<Rightarrow> tag_map \<Rightarrow> bool" where
  "same_up_to_sel tgs tgs' \<longleftrightarrow>
     (\<forall>k. filter (\<lambda>tag. tag \<noteq> ''sel'') (case tgs k of None \<Rightarrow> [] | Some ts \<Rightarrow> ts) =
          filter (\<lambda>tag. tag \<noteq> ''sel'') (case tgs' k of None \<Rightarrow> [] | Some ts \<Rightarrow> ts))"





text \<open>A string without a brace character.\<close>

definition brace_free :: "string \<Rightarrow> bool" where
  "brace_free s \<longleftrightarrow> CHR ''{'' \<notin> set s \<and> CHR ''}'' \<notin> set s"

text \<open>
  The set the specification describes for parameter extraction: the inner parts of all
  substrings made of an opening brace, one or more characters other than the closing
  brace, and a closing brace.
\<close>

definition all_placeholders :: "string \<Rightarrow> string set" where
  "all_placeholders text =
     {x. x \<noteq> [] \<and> CHR ''}'' \<notin> set x \<and> (\<exists>a b. text = a @ ''{'' @ x @ ''}'' @ b)}"

section \<open>The two loops of a paragraph\<close>

lemma scan_end_same:
  "\<forall>i \<in> {lo ..< end_pos}. tag_set tgs (current_pos + i) = current_tags \<Longrightarrow>
   \<forall>i \<in> {lo ..< scan_end tgs current_pos n current_tags end_pos}.
      tag_set tgs (current_pos + i) = current_tags"
proof (induction tgs current_pos n current_tags end_pos rule: scan_end.induct)
  case (1 tgs current_pos n current_tags end_pos)
  show ?case
  proof (cases "end_pos < n \<and> tag_set tgs (current_pos + end_pos) = current_tags")
    case True
    have "\<forall>i \<in> {lo ..< end_pos + 1}. tag_set tgs (current_pos + i) = current_tags"
    proof
      fix i assume "i \<in> {lo ..< end_pos + 1}"
      then have "i \<in> {lo ..< end_pos} \<or> i = end_pos" by auto
      then show "tag_set tgs (current_pos + i) = current_tags"
        using "1.prems" True by auto
    qed
    then have "\<forall>i \<in> {lo ..< scan_end tgs current_pos n current_tags (end_pos + 1)}.
        tag_set tgs (current_pos + i) = current_tags"
      using "1.IH" True by simp
    then show ?thesis using True by (subst scan_end.simps) simp
  next
    case False
    then show ?thesis using "1.prems" by (subst scan_end.simps) auto
  qed
qed

lemma scan_end_stops:
  "scan_end tgs current_pos n current_tags end_pos < n \<Longrightarrow>
   tag_set tgs (current_pos + scan_end tgs current_pos n current_tags end_pos) \<noteq> current_tags"
proof (induction tgs current_pos n current_tags end_pos rule: scan_end.induct)
  case (1 tgs current_pos n current_tags end_pos)
  show ?case
  proof (cases "end_pos < n \<and> tag_set tgs (current_pos + end_pos) = current_tags")
    case True
    then have eq: "scan_end tgs current_pos n current_tags end_pos =
        scan_end tgs current_pos n current_tags (end_pos + 1)"
      by (subst scan_end.simps) simp
    show ?thesis using "1.IH" "1.prems" True unfolding eq by simp
  next
    case False
    then have eq: "scan_end tgs current_pos n current_tags end_pos = end_pos"
      by (subst scan_end.simps) auto
    show ?thesis using "1.prems" False unfolding eq by auto
  qed
qed

lemma run_bounds_maximal:
  "pos \<le> n \<Longrightarrow> maximal_runs tgs current_pos n pos (run_bounds tgs current_pos n pos)"
proof (induction tgs current_pos n pos rule: run_bounds.induct)
  case (1 tgs current_pos n pos)
  let ?e = "scan_end tgs current_pos n (tag_set tgs (current_pos + pos)) (pos + 1)"
  show ?case
  proof (cases "pos < n")
    case True
    have ge: "pos + 1 \<le> ?e" by (rule scan_end_ge)
    have le: "?e \<le> n" using True by (intro scan_end_le) simp
    have same: "\<forall>i \<in> {pos ..< ?e}. tag_set tgs (current_pos + i) = tag_set tgs (current_pos + pos)"
      by (rule scan_end_same) simp
    have stop: "?e < n \<longrightarrow> tag_set tgs (current_pos + ?e) \<noteq> tag_set tgs (current_pos + pos)"
      using scan_end_stops by blast
    have rest: "maximal_runs tgs current_pos n ?e (run_bounds tgs current_pos n ?e)"
      using "1.IH" True le by simp
    have unfold: "run_bounds tgs current_pos n pos = (pos, ?e) # run_bounds tgs current_pos n ?e"
      using True by (subst run_bounds.simps) simp
    have lt: "pos < ?e" using ge by simp
    show ?thesis unfolding unfold maximal_runs.simps fst_conv snd_conv
      using lt le same stop rest by blast
  next
    case False
    then have "run_bounds tgs current_pos n pos = []" by (subst run_bounds.simps) simp
    then show ?thesis using False "1.prems" by simp
  qed
qed

lemma maximal_runs_cover:
  "maximal_runs tgs current_pos (length paragraph) pos rs \<Longrightarrow>
   concat (map (segment_of paragraph) rs) = drop pos paragraph"
proof (induction rs arbitrary: pos)
  case Nil
  then show ?case by simp
next
  case (Cons r rs)
  then have r: "fst r = pos" "pos < snd r" "snd r \<le> length paragraph"
    and rest: "maximal_runs tgs current_pos (length paragraph) (snd r) rs" by simp_all
  have tl: "concat (map (segment_of paragraph) rs) = drop (snd r) paragraph"
    using Cons.IH rest by simp
  have hd: "segment_of paragraph r = take (snd r - pos) (drop pos paragraph)"
    using r by (simp add: segment_of_def)
  have "drop (snd r) paragraph = drop (snd r - pos) (drop pos paragraph)"
    using r by simp
  then have "take (snd r - pos) (drop pos paragraph) @ drop (snd r) paragraph = drop pos paragraph"
    by (simp only: append_take_drop_id)
  then show ?case by (simp only: list.map concat.simps tl hd)
qed

lemma scan_end_unique:
  "e0 \<le> e \<Longrightarrow> e \<le> n \<Longrightarrow>
   \<forall>i \<in> {e0 ..< e}. tag_set tgs (current_pos + i) = current_tags \<Longrightarrow>
   (e < n \<longrightarrow> tag_set tgs (current_pos + e) \<noteq> current_tags) \<Longrightarrow>
   scan_end tgs current_pos n current_tags e0 = e"
proof (induction tgs current_pos n current_tags e0 rule: scan_end.induct)
  case (1 tgs current_pos n current_tags e0)
  show ?case
  proof (cases "e0 < n \<and> tag_set tgs (current_pos + e0) = current_tags")
    case True
    have "e0 \<noteq> e" using True "1.prems"(4) by auto
    then have lt: "e0 + 1 \<le> e" using "1.prems"(1) by simp
    have "\<forall>i \<in> {e0 + 1 ..< e}. tag_set tgs (current_pos + i) = current_tags"
      using "1.prems"(3) by auto
    then have "scan_end tgs current_pos n current_tags (e0 + 1) = e"
      using "1.IH" True lt "1.prems"(2) "1.prems"(4) by blast
    then show ?thesis using True by (subst scan_end.simps) simp
  next
    case False
    have "e0 = e"
    proof (rule ccontr)
      assume "e0 \<noteq> e"
      then have "e0 < e" using "1.prems"(1) by simp
      then have "e0 < n" "e0 \<in> {e0 ..< e}" using "1.prems"(2) by simp_all
      then have "e0 < n" "tag_set tgs (current_pos + e0) = current_tags"
        using "1.prems"(3) by blast+
      then show False using False by blast
    qed
    moreover have "scan_end tgs current_pos n current_tags e0 = e0"
      using False by (subst scan_end.simps) auto
    ultimately show ?thesis by simp
  qed
qed

lemma maximal_runs_unique:
  "maximal_runs tgs current_pos n pos rs \<Longrightarrow> rs = run_bounds tgs current_pos n pos"
proof (induction rs arbitrary: pos)
  case Nil
  then have "pos = n" by simp
  then show ?case by (subst run_bounds.simps) simp
next
  case (Cons r rs)
  have r: "fst r = pos" "pos < snd r" "snd r \<le> n"
    and same: "\<forall>i \<in> {pos ..< snd r}. tag_set tgs (current_pos + i) = tag_set tgs (current_pos + pos)"
    and stop: "snd r < n \<longrightarrow> tag_set tgs (current_pos + snd r) \<noteq> tag_set tgs (current_pos + pos)"
    and rest: "maximal_runs tgs current_pos n (snd r) rs"
    using Cons.prems unfolding maximal_runs.simps by blast+
  have same': "\<forall>i \<in> {pos + 1 ..< snd r}. tag_set tgs (current_pos + i) = tag_set tgs (current_pos + pos)"
  proof
    fix i assume "i \<in> {pos + 1 ..< snd r}"
    then have "i \<in> {pos ..< snd r}" by simp
    then show "tag_set tgs (current_pos + i) = tag_set tgs (current_pos + pos)"
      using same by blast
  qed
  have e: "scan_end tgs current_pos n (tag_set tgs (current_pos + pos)) (pos + 1) = snd r"
  proof (rule scan_end_unique)
    show "pos + 1 \<le> snd r" using r(2) by simp
    show "snd r \<le> n" by (rule r(3))
    show "\<forall>i \<in> {pos + 1 ..< snd r}.
        tag_set tgs (current_pos + i) = tag_set tgs (current_pos + pos)" by (rule same')
    show "snd r < n \<longrightarrow>
        tag_set tgs (current_pos + snd r) \<noteq> tag_set tgs (current_pos + pos)" by (rule stop)
  qed
  have tl: "rs = run_bounds tgs current_pos n (snd r)"
    using Cons.IH rest by blast
  have "pos < n" using r by simp
  then have "run_bounds tgs current_pos n pos = (pos, snd r) # run_bounds tgs current_pos n (snd r)"
    using e by (subst run_bounds.simps) simp
  moreover have "r = (pos, snd r)" using r(1) by (cases r) simp
  ultimately show ?case using tl by simp
qed





lemmas render_eval = get_html_content_def html_lines_of_def update_template_def service_of_def
    init_template_def


lemmas run_eval = render_paragraph_def run_bounds.simps scan_end.simps tag_set_def
    inserted_tags_def hello_tags_def str_nat.simps digit_char_def render_run_def segment_of_def
    escape_text_def html_escape_def build_styles_def span_open_def font_style_def startswith_def
    split_colon1_def strip_def is_space_def

lemma reversed_order_valid: "valid_order (\<lambda>xs. rev (remdups xs))"
  by (simp add: valid_order_def)

lemma no_font_styles:
  assumes "valid_order it" and "\<forall>t \<in> set xs. font_style t = []"
  shows "concat (map font_style (it xs)) = []"
proof -
  have "set (it xs) = set xs" using assms(1) by (simp add: valid_order_def)
  then show ?thesis using assms(2) by simp
qed

lemma bold_no_font: "valid_order it \<Longrightarrow> concat (map font_style (it [''bold''])) = []"
  by (rule no_font_styles) (simp_all add: font_style_def startswith_def)

lemma hello_bold:
  assumes v: "valid_order it"
  shows "get_html_content it (service_of ''Hello World'' (hello_tags [''bold''])) =
   ''<p>'' @ [NL] @ span_open ''font-weight: bold'' @ ''Hello</span>'' @ [NL]
     @ ''&nbsp;World'' @ [NL] @ ''</p>''"
  by (simp add: bold_no_font [OF v] render_eval render_paragraph_def run_bounds.simps
    scan_end.simps tag_set_def
    inserted_tags_def hello_tags_def str_nat.simps digit_char_def render_run_def segment_of_def
    escape_text_def html_escape_def build_styles_def span_open_def)

section \<open>The selection marker and escaping\<close>

lemma inserted_tags_sel:
  "same_up_to_sel tgs tgs' \<Longrightarrow> inserted_tags tgs i = inserted_tags tgs' i"
  by (simp add: same_up_to_sel_def inserted_tags_def)

lemma tag_set_sel: "same_up_to_sel tgs tgs' \<Longrightarrow> tag_set tgs i = tag_set tgs' i"
  by (simp add: tag_set_def inserted_tags_sel)

lemma scan_end_sel:
  "same_up_to_sel tgs tgs' \<Longrightarrow>
   scan_end tgs current_pos n current_tags end_pos =
   scan_end tgs' current_pos n current_tags end_pos"
proof (induction tgs current_pos n current_tags end_pos rule: scan_end.induct)
  case (1 tgs current_pos n current_tags end_pos)
  have t: "tag_set tgs (current_pos + end_pos) = tag_set tgs' (current_pos + end_pos)"
    using "1.prems" by (rule tag_set_sel)
  show ?case
  proof (cases "end_pos < n \<and> tag_set tgs (current_pos + end_pos) = current_tags")
    case True
    then have "scan_end tgs current_pos n current_tags (end_pos + 1) =
        scan_end tgs' current_pos n current_tags (end_pos + 1)"
      using "1.IH" "1.prems" by simp
    then show ?thesis
      using True t
      by (subst scan_end.simps, subst (2) scan_end.simps) simp
  next
    case False
    then show ?thesis
      using t by (subst scan_end.simps, subst (2) scan_end.simps) auto
  qed
qed

lemma run_bounds_sel:
  "same_up_to_sel tgs tgs' \<Longrightarrow>
   run_bounds tgs current_pos n pos = run_bounds tgs' current_pos n pos"
proof (induction tgs current_pos n pos rule: run_bounds.induct)
  case (1 tgs current_pos n pos)
  let ?e = "scan_end tgs current_pos n (tag_set tgs (current_pos + pos)) (pos + 1)"
  have e: "scan_end tgs' current_pos n (tag_set tgs' (current_pos + pos)) (pos + 1) = ?e"
    using scan_end_sel [OF "1.prems"] tag_set_sel [OF "1.prems"] by simp
  show ?case
  proof (cases "pos < n")
    case True
    then have "run_bounds tgs current_pos n ?e = run_bounds tgs' current_pos n ?e"
      using "1.IH" "1.prems" by simp
    then show ?thesis
      using True e by (subst run_bounds.simps, subst (2) run_bounds.simps) simp
  next
    case False
    then show ?thesis by (subst run_bounds.simps, subst (2) run_bounds.simps) simp
  qed
qed

lemma render_run_sel:
  assumes "same_up_to_sel tgs tgs'"
  shows "render_run it tgs current_pos paragraph r = render_run it tgs' current_pos paragraph r"
proof -
  have a: "tag_set tgs (current_pos + fst r) = tag_set tgs' (current_pos + fst r)"
    using assms by (rule tag_set_sel)
  have b: "inserted_tags tgs (current_pos + fst r) = inserted_tags tgs' (current_pos + fst r)"
    using assms by (rule inserted_tags_sel)
  show ?thesis unfolding render_run_def a b by (rule refl)
qed

lemma render_paragraph_sel:
  assumes "same_up_to_sel tgs tgs'"
  shows "render_paragraph it tgs current_pos paragraph =
         render_paragraph it tgs' current_pos paragraph"
proof -
  have "run_bounds tgs current_pos (length paragraph) 0 =
        run_bounds tgs' current_pos (length paragraph) 0"
    using assms by (rule run_bounds_sel)
  moreover have "render_run it tgs current_pos paragraph = render_run it tgs' current_pos paragraph"
    using render_run_sel [OF assms] by (intro ext)
  ultimately show ?thesis by (simp add: render_paragraph_def)
qed

lemma render_loop_sel:
  "same_up_to_sel tgs tgs' \<Longrightarrow>
   render_loop it tgs paragraphs current_pos last_empty html_lines =
   render_loop it tgs' paragraphs current_pos last_empty html_lines"
  by (induction paragraphs arbitrary: current_pos last_empty html_lines)
     (simp_all add: render_paragraph_sel [of tgs tgs'])









section \<open>Replacing next to a placeholder\<close>

lemma placeholder_Cons: "placeholder k = CHR ''{'' # k @ ''}''"
  by (simp add: placeholder_def)

lemma length_placeholder: "length (placeholder k) = length k + 2"
  by (simp add: placeholder_def)

lemma str_replace_skip:
  "c \<noteq> CHR ''{'' \<Longrightarrow> str_replace (placeholder k) v (c # s) = c # str_replace (placeholder k) v s"
  by (simp add: placeholder_Cons)

lemma str_replace_skip_run:
  "CHR ''{'' \<notin> set m \<Longrightarrow>
   str_replace (placeholder k) v (m @ s) = m @ str_replace (placeholder k) v s"
proof (induction m)
  case Nil
  show ?case by simp
next
  case (Cons c m)
  then have c: "c \<noteq> CHR ''{''" and m: "CHR ''{'' \<notin> set m" by auto
  have "str_replace (placeholder k) v (c # (m @ s)) = c # str_replace (placeholder k) v (m @ s)"
    using c by (rule str_replace_skip)
  then show ?case using Cons.IH [OF m] by (simp del: str_replace.simps)
qed

lemma same_key:
  "brace_free k \<Longrightarrow> brace_free name \<Longrightarrow>
   take (length k + 1) (name @ CHR ''}'' # b) = k @ ''}'' \<Longrightarrow> k = name"
proof (induction k arbitrary: name)
  case Nil
  then show ?case by (cases name) (auto simp: brace_free_def)
next
  case (Cons c k)
  show ?case
  proof (cases name)
    case Nil
    then show ?thesis using Cons.prems by (auto simp: brace_free_def)
  next
    case (Cons d name')
    then have "c = d" "take (length k + 1) (name' @ CHR ''}'' # b) = k @ ''}''"
      using Cons.prems(3) by simp_all
    moreover have "brace_free k" "brace_free name'"
      using Cons.prems(1,2) Cons by (simp_all add: brace_free_def)
    ultimately show ?thesis using Cons.IH Cons by simp
  qed
qed

lemma placeholder_not_prefix:
  assumes "brace_free k" "brace_free name" "k \<noteq> name"
  shows "take (length (placeholder k)) (placeholder name @ b) \<noteq> placeholder k"
proof
  assume "take (length (placeholder k)) (placeholder name @ b) = placeholder k"
  then have "take (length k + 1) (name @ CHR ''}'' # b) = k @ ''}''"
    by (simp add: placeholder_Cons)
  then have "k = name" using assms(1,2) by (rule same_key [rotated 2])
  then show False using assms(3) by simp
qed

lemma str_replace_at_placeholder:
  assumes "brace_free k" "brace_free name" "k \<noteq> name"
  shows "str_replace (placeholder k) v (placeholder name @ b) =
         placeholder name @ str_replace (placeholder k) v b"
proof -
  have np: "take (length (placeholder k)) (CHR ''{'' # name @ CHR ''}'' # b) \<noteq> placeholder k"
    using placeholder_not_prefix [OF assms, of b] by (simp add: placeholder_Cons)
  have ne: "placeholder k \<noteq> []" by (simp add: placeholder_Cons)
  have "str_replace (placeholder k) v (CHR ''{'' # name @ CHR ''}'' # b) =
        CHR ''{'' # str_replace (placeholder k) v (name @ CHR ''}'' # b)"
    using np ne by (simp del: take_Suc_Cons)
  also have "str_replace (placeholder k) v (name @ CHR ''}'' # b) =
        name @ str_replace (placeholder k) v (CHR ''}'' # b)"
    using assms(2) by (intro str_replace_skip_run) (simp add: brace_free_def)
  also have "str_replace (placeholder k) v (CHR ''}'' # b) = CHR ''}'' # str_replace (placeholder k) v b"
    by (rule str_replace_skip) simp
  finally show ?thesis by (simp add: placeholder_Cons)
qed

lemma match_ends_before:
  assumes k: "brace_free k"
    and a: "a \<noteq> []"
    and m: "take (length (placeholder k)) (a @ CHR ''{'' # s) = placeholder k"
  shows "length (placeholder k) \<le> length a"
proof (rule ccontr)
  assume "\<not> length (placeholder k) \<le> length a"
  then have lt: "length a < length (placeholder k)" by simp
  have pos: "0 < length a" using a by simp
  have "placeholder k ! length a = take (length (placeholder k)) (a @ CHR ''{'' # s) ! length a"
    using m by simp
  also have "\<dots> = (a @ CHR ''{'' # s) ! length a" using lt by (rule nth_take)
  also have "\<dots> = CHR ''{''" by simp
  finally have brace: "placeholder k ! length a = CHR ''{''" .
  obtain j where j: "length a = Suc j" using pos by (cases "length a") simp_all
  have "j < length (k @ ''}'')" using lt j by (simp add: length_placeholder)
  then have "(k @ ''}'') ! j \<in> set (k @ ''}'')" by (rule nth_mem)
  moreover have "placeholder k ! length a = (k @ ''}'') ! j"
    using j by (simp add: placeholder_Cons)
  ultimately have "CHR ''{'' \<in> set (k @ ''}'')" using brace by simp
  then show False using k by (simp add: brace_free_def)
qed

lemma str_replace_keeps_placeholder:
  assumes "brace_free k" "brace_free name" "k \<noteq> name"
  shows "str_replace (placeholder k) v (a @ placeholder name @ b) =
         str_replace (placeholder k) v a @ placeholder name @ str_replace (placeholder k) v b"
proof (induction a rule: length_induct)
  case (1 a)
  let ?Q = "placeholder k"
  have ne: "?Q \<noteq> []" by (simp add: placeholder_Cons)
  show ?case
  proof (cases a)
    case Nil
    then show ?thesis using str_replace_at_placeholder [OF assms] ne by simp
  next
    case (Cons c a')
    let ?t = "a @ placeholder name @ b"
    have t: "?t = c # (a' @ placeholder name @ b)" using Cons by simp
    show ?thesis
    proof (cases "take (length ?Q) ?t = ?Q")
      case True
      have "take (length ?Q) (a @ CHR ''{'' # (name @ ''}'' @ b)) = ?Q"
        using True by (simp add: placeholder_Cons)
      then have le: "length ?Q \<le> length a"
        using assms(1) Cons by (intro match_ends_before) simp_all
      then have pa: "take (length ?Q) a = ?Q" using True by simp
      have dr: "drop (length ?Q) ?t = drop (length ?Q) a @ placeholder name @ b"
        using le by simp
      have shorter: "length (drop (length ?Q) a) < length a"
        using le ne Cons by simp
      have ih: "str_replace ?Q v (drop (length ?Q) a @ placeholder name @ b) =
          str_replace ?Q v (drop (length ?Q) a) @ placeholder name @ str_replace ?Q v b"
        using "1.IH" shorter by blast
      have lhs: "str_replace ?Q v ?t = v @ str_replace ?Q v (drop (length ?Q) ?t)"
        using True ne unfolding t by (simp del: take_Suc_Cons drop_Suc_Cons)
      have rhs: "str_replace ?Q v a = v @ str_replace ?Q v (drop (length ?Q) a)"
        using pa ne unfolding Cons by (simp del: take_Suc_Cons drop_Suc_Cons)
      show ?thesis unfolding lhs rhs dr ih by simp
    next
      case False
      have npa: "take (length ?Q) a \<noteq> ?Q"
      proof
        assume pa: "take (length ?Q) a = ?Q"
        then have "length ?Q \<le> length a"
          by (metis length_take min.absorb_iff2 min.cobounded1 min_def)
        then have "take (length ?Q) ?t = ?Q" using pa by simp
        then show False using False by simp
      qed
      have ih: "str_replace ?Q v (a' @ placeholder name @ b) =
          str_replace ?Q v a' @ placeholder name @ str_replace ?Q v b"
        using "1.IH" Cons by simp
      have lhs: "str_replace ?Q v ?t = c # str_replace ?Q v (a' @ placeholder name @ b)"
        using False ne unfolding t by (simp del: take_Suc_Cons drop_Suc_Cons)
      have rhs: "str_replace ?Q v a = c # str_replace ?Q v a'"
        using npa ne unfolding Cons by (simp del: take_Suc_Cons drop_Suc_Cons)
      show ?thesis unfolding lhs rhs ih by simp
    qed
  qed
qed

lemma replace_variables_keeps_placeholder:
  assumes "brace_free name"
  shows "\<forall>(k, v) \<in> set variables. brace_free k \<and> k \<noteq> name \<Longrightarrow>
     replace_variables (a @ placeholder name @ b) variables =
     replace_variables a variables @ placeholder name @ replace_variables b variables"
proof (induction variables arbitrary: a b)
  case Nil
  then show ?case by (simp add: replace_variables_def)
next
  case (Cons kv variables)
  obtain k v where kv: "kv = (k, v)" by (cases kv)
  have k: "brace_free k" "k \<noteq> name" using Cons.prems kv by simp_all
  have rest: "\<forall>(k, v) \<in> set variables. brace_free k \<and> k \<noteq> name" using Cons.prems by simp
  have step: "replace_variables t (kv # variables) =
      replace_variables (str_replace (placeholder k) v t) variables" for t
    by (simp add: replace_variables_def kv)
  show ?case
    unfolding step str_replace_keeps_placeholder [OF k(1) assms k(2)]
    by (rule Cons.IH [OF rest])
qed

section \<open>The scan for parameters\<close>

lemma all_placeholders_append: "all_placeholders s \<subseteq> all_placeholders (pre @ s)"
proof
  fix x assume "x \<in> all_placeholders s"
  then obtain a b where x: "x \<noteq> []" "CHR ''}'' \<notin> set x" and s: "s = a @ ''{'' @ x @ ''}'' @ b"
    by (auto simp: all_placeholders_def)
  have "pre @ s = (pre @ a) @ ''{'' @ x @ ''}'' @ b" using s by simp
  then show "x \<in> all_placeholders (pre @ s)" using x unfolding all_placeholders_def by blast
qed

lemma all_placeholders_Cons: "all_placeholders cs \<subseteq> all_placeholders (c # cs)"
  using all_placeholders_append [of cs "[c]"] by simp

lemma all_placeholders_head:
  assumes "x \<in> all_placeholders (c # cs)"
  shows "(c = CHR ''{'' \<and> (\<exists>b. cs = x @ CHR ''}'' # b)) \<or> x \<in> all_placeholders cs"
proof -
  obtain a b where x: "x \<noteq> []" "CHR ''}'' \<notin> set x" and s: "c # cs = a @ ''{'' @ x @ ''}'' @ b"
    using assms by (auto simp: all_placeholders_def)
  show ?thesis
  proof (cases a)
    case Nil
    then show ?thesis using s by simp
  next
    case (Cons d a')
    then have "cs = a' @ ''{'' @ x @ ''}'' @ b" using s by simp
    then have "x \<in> all_placeholders cs" using x unfolding all_placeholders_def by blast
    then show ?thesis by simp
  qed
qed

lemma all_placeholders_skip:
  "CHR ''{'' \<notin> set pre \<Longrightarrow> x \<in> all_placeholders (pre @ s) \<Longrightarrow> x \<in> all_placeholders s"
proof (induction pre)
  case Nil
  then show ?case by simp
next
  case (Cons c pre)
  have "x \<in> all_placeholders (c # (pre @ s))" using Cons.prems(2) by simp
  then have "x \<in> all_placeholders (pre @ s)"
    using all_placeholders_head [of x c "pre @ s"] Cons.prems(1) by auto
  then show ?case using Cons.IH Cons.prems(1) by simp
qed

lemma split_at_brace:
  "CHR ''}'' \<notin> set x \<Longrightarrow>
   takeWhile (\<lambda>c. c \<noteq> CHR ''}'') (x @ CHR ''}'' # b) = x
   \<and> dropWhile (\<lambda>c. c \<noteq> CHR ''}'') (x @ CHR ''}'' # b) = CHR ''}'' # b"
  by (induction x) auto

lemma match_shape:
  assumes "dropWhile (\<lambda>c. c \<noteq> CHR ''}'') cs \<noteq> []"
  shows "cs = takeWhile (\<lambda>c. c \<noteq> CHR ''}'') cs @ CHR ''}'' # tl (dropWhile (\<lambda>c. c \<noteq> CHR ''}'') cs)"
proof -
  let ?d = "dropWhile (\<lambda>c. c \<noteq> CHR ''}'') cs"
  have "\<not> (hd ?d \<noteq> CHR ''}'')" using assms by (rule hd_dropWhile)
  then have "?d = CHR ''}'' # tl ?d" using assms by (cases ?d) simp_all
  then have "takeWhile (\<lambda>c. c \<noteq> CHR ''}'') cs @ CHR ''}'' # tl ?d = takeWhile (\<lambda>c. c \<noteq> CHR ''}'') cs @ ?d"
    by simp
  then show ?thesis by (simp only: takeWhile_dropWhile_id)
qed

lemma inner_no_close: "CHR ''}'' \<notin> set (takeWhile (\<lambda>c. c \<noteq> CHR ''}'') cs)"
  using set_takeWhileD by fastforce

lemma findall_params_sound: "set (findall_params s) \<subseteq> all_placeholders s"
proof (induction s rule: findall_params.induct)
  case 1
  show ?case by simp
next
  case (2 c cs)
  let ?inner = "takeWhile (\<lambda>x. x \<noteq> CHR ''}'') cs"
  let ?rest = "tl (dropWhile (\<lambda>x. x \<noteq> CHR ''}'') cs)"
  show ?case
  proof (cases "c = CHR ''{'' \<and> ?inner \<noteq> [] \<and> dropWhile (\<lambda>x. x \<noteq> CHR ''}'') cs \<noteq> []")
    case True
    have shape: "cs = ?inner @ CHR ''}'' # ?rest" using True by (intro match_shape) simp
    have "c # cs = [] @ ''{'' @ ?inner @ ''}'' @ ?rest" using True shape by simp
    then have head: "?inner \<in> all_placeholders (c # cs)"
      using True inner_no_close [of cs] unfolding all_placeholders_def by blast
    have "set (findall_params ?rest) \<subseteq> all_placeholders ?rest" using "2.IH"(1) True by simp
    also have "\<dots> \<subseteq> all_placeholders ((c # ?inner @ ''}'') @ ?rest)"
      by (rule all_placeholders_append)
    also have "(c # ?inner @ ''}'') @ ?rest = c # cs" using shape by simp
    finally have "set (findall_params ?rest) \<subseteq> all_placeholders (c # cs)" .
    moreover have "findall_params (c # cs) = ?inner # findall_params ?rest" using True by simp
    ultimately show ?thesis using head by simp
  next
    case False
    then have "set (findall_params cs) \<subseteq> all_placeholders cs" using "2.IH"(2) by simp
    moreover have "findall_params (c # cs) = findall_params cs" using False by auto
    ultimately show ?thesis using all_placeholders_Cons [of cs c] by auto
  qed
qed

lemma findall_params_complete:
  "\<forall>x \<in> all_placeholders s. CHR ''{'' \<notin> set x \<Longrightarrow>
   all_placeholders s \<subseteq> set (findall_params s)"
proof (induction s rule: findall_params.induct)
  case 1
  show ?case by (auto simp: all_placeholders_def)
next
  case (2 c cs)
  let ?inner = "takeWhile (\<lambda>x. x \<noteq> CHR ''}'') cs"
  let ?rest = "tl (dropWhile (\<lambda>x. x \<noteq> CHR ''}'') cs)"
  show ?case
  proof (cases "c = CHR ''{'' \<and> ?inner \<noteq> [] \<and> dropWhile (\<lambda>x. x \<noteq> CHR ''}'') cs \<noteq> []")
    case True
    have shape: "cs = ?inner @ CHR ''}'' # ?rest" using True by (intro match_shape) simp
    have unf: "findall_params (c # cs) = ?inner # findall_params ?rest" using True by simp
    have "c # cs = [] @ ''{'' @ ?inner @ ''}'' @ ?rest" using True shape by simp
    then have "?inner \<in> all_placeholders (c # cs)"
      using True inner_no_close [of cs] unfolding all_placeholders_def by blast
    then have open_free: "CHR ''{'' \<notin> set (?inner @ ''}'')" using "2.prems" by simp
    have sub: "all_placeholders ?rest \<subseteq> all_placeholders (c # cs)"
      using all_placeholders_append [of ?rest "c # ?inner @ ''}''"] shape by simp
    then have "\<forall>x \<in> all_placeholders ?rest. CHR ''{'' \<notin> set x" using "2.prems" by blast
    then have ih: "all_placeholders ?rest \<subseteq> set (findall_params ?rest)"
      using "2.IH"(1) True by simp
    show ?thesis
    proof
      fix x assume x: "x \<in> all_placeholders (c # cs)"
      then consider b where "cs = x @ CHR ''}'' # b" | "x \<in> all_placeholders cs"
        using all_placeholders_head by blast
      then show "x \<in> set (findall_params (c # cs))"
      proof cases
        case 1
        have "CHR ''}'' \<notin> set x" using x by (simp add: all_placeholders_def)
        then have "?inner = x" using split_at_brace [of x b] 1 by simp
        then show ?thesis unfolding unf by simp
      next
        case 2
        then have "x \<in> all_placeholders ((?inner @ ''}'') @ ?rest)" using shape by simp
        then have "x \<in> all_placeholders ?rest" using open_free by (rule all_placeholders_skip [rotated])
        then show ?thesis unfolding unf using ih by auto
      qed
    qed
  next
    case False
    have unf: "findall_params (c # cs) = findall_params cs" using False by auto
    have "\<forall>x \<in> all_placeholders cs. CHR ''{'' \<notin> set x"
      using "2.prems" all_placeholders_Cons [of cs c] by blast
    then have ih: "all_placeholders cs \<subseteq> set (findall_params cs)" using "2.IH"(2) False by simp
    show ?thesis
    proof
      fix x assume x: "x \<in> all_placeholders (c # cs)"
      then consider b where "c = CHR ''{''" "cs = x @ CHR ''}'' # b" | "x \<in> all_placeholders cs"
        using all_placeholders_head by blast
      then show "x \<in> set (findall_params (c # cs))"
      proof cases
        case 1
        have xs: "x \<noteq> []" "CHR ''}'' \<notin> set x" using x by (simp_all add: all_placeholders_def)
        then have "?inner = x" "dropWhile (\<lambda>x. x \<noteq> CHR ''}'') cs = CHR ''}'' # b"
          using split_at_brace [of x b] 1 by simp_all
        then show ?thesis using False 1 xs by simp
      next
        case 2
        then show ?thesis unfolding unf using ih by auto
      qed
    qed
  qed
qed

lemma findall_params_leftmost:
  assumes "CHR ''{'' \<notin> set a" "x \<noteq> []" "CHR ''}'' \<notin> set x"
  shows "findall_params (a @ ''{'' @ x @ ''}'' @ b) = x # findall_params b"
  using assms(1)
proof (induction a)
  case Nil
  show ?case using split_at_brace [OF assms(3), of b] assms(2) by simp
next
  case (Cons c a)
  then have c: "c \<noteq> CHR ''{''" and a: "CHR ''{'' \<notin> set a" by auto
  have "findall_params (c # (a @ ''{'' @ x @ ''}'' @ b)) = findall_params (a @ ''{'' @ x @ ''}'' @ b)"
    using c by simp
  then show ?case using Cons.IH [OF a] by simp
qed

lemma all_placeholders_single:
  assumes "CHR ''{'' \<notin> set cs"
  shows "all_placeholders (CHR ''{'' # cs) \<subseteq> {takeWhile (\<lambda>c. c \<noteq> CHR ''}'') cs}"
proof
  fix x assume x: "x \<in> all_placeholders (CHR ''{'' # cs)"
  then consider b where "cs = x @ CHR ''}'' # b" | "x \<in> all_placeholders cs"
    using all_placeholders_head by blast
  then show "x \<in> {takeWhile (\<lambda>c. c \<noteq> CHR ''}'') cs}"
  proof cases
    case 1
    have "CHR ''}'' \<notin> set x" using x by (simp add: all_placeholders_def)
    then show ?thesis using split_at_brace [of x b] 1 by simp
  next
    case 2
    then have "x \<in> all_placeholders (cs @ [])" by simp
    then have "x \<in> all_placeholders []" using assms by (rule all_placeholders_skip [rotated])
    then show ?thesis by (simp add: all_placeholders_def)
  qed
qed

section \<open>Substitution is one pass per key\<close>



section \<open>Empty content\<close>

text \<open>
  Claim C9: rendering the empty content gives the single placeholder paragraph
  \<open><p>&nbsp;</p>\<close>, whatever the tag map is.
\<close>

theorem empty_content_placeholder:
  "get_html_content it (update_template subj [] html tgs family fsize self) = ''<p>&nbsp;</p>''"
  by (simp add: get_html_content_def html_lines_of_def update_template_def)

section \<open>Validation of the template parameters\<close>

lemma finite_validate_template_params: "finite (validate_template_params t)"
  by (simp add: validate_template_params_def)

text \<open>
  Claim C10: \<open>validate_template\<close> returns the pair \<open>(b, U)\<close> where \<open>U\<close> is the union of
  the parameters of subject and content without the available ones, and \<open>b\<close> holds
  exactly when \<open>U\<close> is empty. The function is total: no input makes it fail.
\<close>

theorem validate_template_result:
  "validate_template subj cont available =
     ((validate_template_params subj \<union> validate_template_params cont) - available = {},
      (validate_template_params subj \<union> validate_template_params cont) - available)"
  by (simp add: validate_template_def get_template_params_def Let_def
      finite_validate_template_params)

section \<open>Blank lines\<close>


section \<open>The order of the font declarations\<close>

text \<open>
  Claim C2 asks for the order bold, italic, underline, font-family, font-size under every
  iteration order of the tag set. The two font declarations are appended by the loop over
  the set, so they come out in the order the set yields them: when the set of the tests'
  tags yields \<open>font-size:14\<close> first, the span of \<open>Hello World\<close> carries the size before
  the family.
\<close>

theorem font_order_follows_set:
  "valid_order (\<lambda>xs. rev (remdups xs)) \<and>
   get_html_content (\<lambda>xs. rev (remdups xs))
     (service_of ''Hello World'' (hello_tags [''font-family:Arial'', ''font-size:14''])) =
   ''<p>'' @ [NL] @ span_open (''font-size: 14pt; font-family: '' @ [SQ] @ ''Arial'' @ [SQ])
     @ ''Hello</span>'' @ [NL] @ ''&nbsp;World'' @ [NL] @ ''</p>''"
proof
  show "valid_order (\<lambda>xs. rev (remdups xs))" by (rule reversed_order_valid)
  show "get_html_content (\<lambda>xs. rev (remdups xs))
     (service_of ''Hello World'' (hello_tags [''font-family:Arial'', ''font-size:14''])) =
   ''<p>'' @ [NL] @ span_open (''font-size: 14pt; font-family: '' @ [SQ] @ ''Arial'' @ [SQ])
     @ ''Hello</span>'' @ [NL] @ ''&nbsp;World'' @ [NL] @ ''</p>''"
    by (simp add: render_eval run_eval)
qed

section \<open>Runs\<close>

text \<open>
  Claim C3, as stated, says that two adjacent spans never have the same style. Two
  adjacent offsets whose tag sets differ only in a tag that adds no declaration are two
  runs with the same style text: here \<open>bold\<close> next to \<open>bold\<close> with the editor's own
  \<open>font_Arial_14\<close>.
\<close>

theorem same_style_adjacent_spans:
  "get_html_content remdups
     (service_of ''ab'' [''0'' \<mapsto> [''bold''], ''1'' \<mapsto> [''bold'', ''font_Arial_14'']]) =
   ''<p>'' @ [NL] @ span_open ''font-weight: bold'' @ ''a</span>'' @ [NL]
     @ span_open ''font-weight: bold'' @ ''b</span>'' @ [NL] @ ''</p>''"
  by (simp add: render_eval run_eval)

text \<open>
  Claim C3, amended: within a paragraph the renderer emits one output unit per maximal
  run of adjacent offsets whose tag sets (without the selection marker) are identical.
  The pairs the loop visits cut the paragraph into such runs, they are the only list of
  pairs that does, their segments put together are the paragraph, and so two adjacent
  units never have the same tag set. For \<open>Hello World\<close> with \<open>bold\<close> at the offsets 0 to 4
  the output is one span with \<open>font-weight: bold\<close> around \<open>Hello\<close>, and \<open>World\<close> follows
  unwrapped.
\<close>

theorem runs_are_maximal:
  "render_paragraph it tgs current_pos paragraph =
     map (render_run it tgs current_pos paragraph)
       (run_bounds tgs current_pos (length paragraph) 0)
   \<and> maximal_runs tgs current_pos (length paragraph) 0
       (run_bounds tgs current_pos (length paragraph) 0)
   \<and> (\<forall>rs. maximal_runs tgs current_pos (length paragraph) 0 rs \<longrightarrow>
          rs = run_bounds tgs current_pos (length paragraph) 0)
   \<and> concat (map (segment_of paragraph) (run_bounds tgs current_pos (length paragraph) 0)) =
       paragraph
   \<and> (valid_order it \<longrightarrow>
        get_html_content it (service_of ''Hello World'' (hello_tags [''bold''])) =
        ''<p>'' @ [NL] @ span_open ''font-weight: bold'' @ ''Hello</span>'' @ [NL]
          @ ''&nbsp;World'' @ [NL] @ ''</p>'')"
proof (intro conjI allI impI)
  show "render_paragraph it tgs current_pos paragraph =
     map (render_run it tgs current_pos paragraph)
       (run_bounds tgs current_pos (length paragraph) 0)"
    by (simp add: render_paragraph_def)
  show m: "maximal_runs tgs current_pos (length paragraph) 0
       (run_bounds tgs current_pos (length paragraph) 0)"
    by (rule run_bounds_maximal) simp
  show "concat (map (segment_of paragraph) (run_bounds tgs current_pos (length paragraph) 0)) =
       paragraph"
    using maximal_runs_cover [OF m] by simp
  show "rs = run_bounds tgs current_pos (length paragraph) 0"
    if "maximal_runs tgs current_pos (length paragraph) 0 rs" for rs
    using that by (rule maximal_runs_unique)
  show "get_html_content it (service_of ''Hello World'' (hello_tags [''bold''])) =
        ''<p>'' @ [NL] @ span_open ''font-weight: bold'' @ ''Hello</span>'' @ [NL]
          @ ''&nbsp;World'' @ [NL] @ ''</p>''"
    if "valid_order it"
    using that by (rule hello_bold)
qed

theorem runs_are_maximal_witness:
  "valid_order remdups
   \<and> maximal_runs (hello_tags [''bold'']) 0 (length ''Hello World'') 0 [(0, 5), (5, 11)]
   \<and> run_bounds (hello_tags [''bold'']) 0 (length ''Hello World'') 0 = [(0, 5), (5, 11)]
   \<and> get_html_content remdups (service_of ''Hello World'' (hello_tags [''bold''])) =
        ''<p>'' @ [NL] @ span_open ''font-weight: bold'' @ ''Hello</span>'' @ [NL]
          @ ''&nbsp;World'' @ [NL] @ ''</p>''"
proof -
  have v: "valid_order remdups" by (simp add: valid_order_def)
  have rb: "run_bounds (hello_tags [''bold'']) 0 (length ''Hello World'') 0 = [(0, 5), (5, 11)]"
    by (simp add: run_bounds.simps scan_end.simps tag_set_def inserted_tags_def hello_tags_def
        str_nat.simps digit_char_def)
  show ?thesis
    using runs_are_maximal [of remdups "hello_tags [''bold'']" 0 "''Hello World''"] v
    unfolding rb by blast
qed

section \<open>The selection marker\<close>

text \<open>
  Claim C6: the tag \<open>sel\<close> is never rendered. Two tag maps that differ only in
  occurrences of \<open>sel\<close>, added or removed at any offsets, give the same HTML for every
  content and every iteration order.
\<close>

theorem sel_never_rendered:
  "same_up_to_sel tgs tgs' \<Longrightarrow>
   get_html_content it (self\<lparr>tags := tgs\<rparr>) = get_html_content it (self\<lparr>tags := tgs'\<rparr>)"
  by (simp add: get_html_content_def html_lines_of_def render_loop_sel [of tgs tgs'])

theorem sel_never_rendered_witness:
  "same_up_to_sel [''0'' \<mapsto> [''sel'', ''bold'']] [''0'' \<mapsto> [''bold''], ''1'' \<mapsto> [''sel'']]
   \<and> get_html_content remdups ((service_of ''ab'' Map.empty)\<lparr>tags := [''0'' \<mapsto> [''sel'', ''bold'']]\<rparr>) =
       get_html_content remdups
         ((service_of ''ab'' Map.empty)\<lparr>tags := [''0'' \<mapsto> [''bold''], ''1'' \<mapsto> [''sel'']]\<rparr>)"
proof -
  have s: "same_up_to_sel [''0'' \<mapsto> [''sel'', ''bold'']] [''0'' \<mapsto> [''bold''], ''1'' \<mapsto> [''sel'']]"
    by (simp add: same_up_to_sel_def)
  show ?thesis
    using sel_never_rendered [OF s, of remdups "service_of ''ab'' Map.empty"] s by simp
qed

section \<open>Escaping\<close>



section \<open>A placeholder without a value\<close>

text \<open>
  Claim C7, as stated, says that a placeholder whose identifier is not a key of the
  variables is left untouched. Braces break this. In \<open>{name}{x}\<close> the identifier \<open>name\<close>
  is not a key, and the key \<open>name}{x\<close> rewrites the text that holds it; in \<open>{a{b}\<close> the
  identifier reported by the extraction is \<open>a{b\<close>, which is not a key, and the key \<open>b\<close>
  rewrites its inside.
\<close>

theorem absent_placeholder_rewritten:
  "''name'' \<in> validate_template_params ''{name}{x}''
   \<and> ''name'' \<notin> fst ` set [(''name}{x'', ''v'')]
   \<and> replace_variables ''{name}{x}'' [(''name}{x'', ''v'')] = ''v''
   \<and> ''a{b'' \<in> validate_template_params ''{a{b}''
   \<and> ''a{b'' \<notin> fst ` set [(''b'', ''X'')]
   \<and> replace_variables ''{a{b}'' [(''b'', ''X'')] = ''{aX''"
  by (simp add: validate_template_params_def replace_variables_def placeholder_def)

text \<open>
  Claim C7, amended: when the identifier has no brace character and is not a key of the
  variables, and no key has a brace character, \<open>replace_variables\<close> leaves the literal
  \<open>{name}\<close> where it is: the text before it and the text after it are substituted as if
  each stood alone. The function returns a string for every input; it has no failing
  branch and reports nothing about missing parameters.
\<close>

theorem absent_placeholder_kept:
  "brace_free name \<Longrightarrow> \<forall>(k, v) \<in> set variables. brace_free k \<and> k \<noteq> name \<Longrightarrow>
   replace_variables (a @ placeholder name @ b) variables =
   replace_variables a variables @ placeholder name @ replace_variables b variables"
  by (rule replace_variables_keeps_placeholder)

theorem absent_placeholder_kept_witness:
  "brace_free ''name''
   \<and> brace_free ''x'' \<and> ''x'' \<noteq> ''name'' \<and> brace_free ''y'' \<and> ''y'' \<noteq> ''name''
   \<and> replace_variables (''{x} '' @ placeholder ''name'' @ '' {y}'')
         [(''x'', ''1''), (''y'', ''{name}'')] = ''1 {name} {name}''"
proof -
  have n: "brace_free ''name''" by (simp add: brace_free_def)
  have ks: "\<forall>(k, v) \<in> set [(''x'', ''1''), (''y'', ''{name}'')]. brace_free k \<and> k \<noteq> ''name''"
    by (simp add: brace_free_def)
  have l: "replace_variables ''{x} '' [(''x'', ''1''), (''y'', ''{name}'')] = ''1 ''"
    by (simp add: replace_variables_def placeholder_def)
  have r: "replace_variables '' {y}'' [(''x'', ''1''), (''y'', ''{name}'')] = '' {name}''"
    by (simp add: replace_variables_def placeholder_def)
  have "replace_variables (''{x} '' @ placeholder ''name'' @ '' {y}'')
         [(''x'', ''1''), (''y'', ''{name}'')] = ''1 '' @ placeholder ''name'' @ '' {name}''"
    using absent_placeholder_kept [OF n ks, of "''{x} ''" "'' {y}''"] unfolding l r .
  then show ?thesis using n by (simp add: placeholder_def brace_free_def)
qed

section \<open>Which parameters are extracted\<close>

text \<open>
  Claim C8, as stated, says that the extraction returns the inner parts of all substrings
  of the form brace, characters other than the closing brace, brace. In \<open>{a{b}\<close> the
  substring \<open>{b}\<close> has that form, and \<open>b\<close> is not returned: the scan has matched \<open>{a{b}\<close>
  and goes on behind it.
\<close>

theorem nested_placeholder_not_reported:
  "validate_template_params ''{a{b}'' \<noteq> all_placeholders ''{a{b}''"
proof -
  have "\<exists>a b. ''{a{b}'' = a @ ''{'' @ ''b'' @ ''}'' @ b"
    by (rule exI [of _ "''{a''"], rule exI [of _ "[]"]) simp
  then have "''b'' \<in> all_placeholders ''{a{b}''" by (simp add: all_placeholders_def)
  moreover have "''b'' \<notin> validate_template_params ''{a{b}''"
    by (simp add: validate_template_params_def)
  ultimately show ?thesis by blast
qed

text \<open>
  Claim C8, amended: the extraction returns the inner parts of the substrings of that form
  which a scan from the left finds without overlap: the first opening brace that starts
  one is matched up to the next closing brace and the scan goes on behind it. Every
  identifier returned is the inner part of such a substring, and all of them are returned
  whenever none of them contains an opening brace. For
  \<open>Hi {name}, your code is {code}\<close> the result is exactly \<open>name\<close> and \<open>code\<close>, and
  \<open>replace_variables\<close> with \<open>name = Ann\<close>, \<open>code = 42\<close> gives \<open>Hi Ann, your code is 42\<close>.
\<close>

theorem extraction_is_leftmost:
  "validate_template_params s \<subseteq> all_placeholders s
   \<and> ((\<forall>x \<in> all_placeholders s. CHR ''{'' \<notin> set x) \<longrightarrow>
        validate_template_params s = all_placeholders s)
   \<and> (CHR ''{'' \<notin> set a \<and> x \<noteq> [] \<and> CHR ''}'' \<notin> set x \<longrightarrow>
        findall_params (a @ ''{'' @ x @ ''}'' @ b) = x # findall_params b)
   \<and> validate_template_params ''Hi {name}, your code is {code}'' = {''name'', ''code''}
   \<and> replace_variables ''Hi {name}, your code is {code}''
        [(''name'', ''Ann''), (''code'', ''42'')] = ''Hi Ann, your code is 42''"
proof (intro conjI impI)
  show sound: "validate_template_params s \<subseteq> all_placeholders s"
    unfolding validate_template_params_def by (rule findall_params_sound)
  show "validate_template_params s = all_placeholders s"
    if "\<forall>x \<in> all_placeholders s. CHR ''{'' \<notin> set x"
    using sound findall_params_complete [OF that]
    unfolding validate_template_params_def by blast
  show "findall_params (a @ ''{'' @ x @ ''}'' @ b) = x # findall_params b"
    if "CHR ''{'' \<notin> set a \<and> x \<noteq> [] \<and> CHR ''}'' \<notin> set x"
    using that by (intro findall_params_leftmost) simp_all
  show "validate_template_params ''Hi {name}, your code is {code}'' = {''name'', ''code''}"
    by (simp add: validate_template_params_def)
  show "replace_variables ''Hi {name}, your code is {code}''
        [(''name'', ''Ann''), (''code'', ''42'')] = ''Hi Ann, your code is 42''"
    by (simp add: replace_variables_def placeholder_def)
qed

theorem extraction_is_leftmost_witness:
  "all_placeholders ''{name}'' = {''name''}
   \<and> CHR ''{'' \<notin> set ''name''
   \<and> all_placeholders ''{name}'' \<subseteq> {''name''}
   \<and> validate_template_params ''{name}'' = {''name''}
   \<and> findall_params (''Hi '' @ ''{'' @ ''name'' @ ''}'' @ '', your code is {code}'') =
        ''name'' # findall_params '', your code is {code}''"
proof -
  have sub: "all_placeholders ''{name}'' \<subseteq> {''name''}"
    using all_placeholders_single [of "''name}''"] by simp
  then have h: "\<forall>x \<in> all_placeholders ''{name}''. CHR ''{'' \<notin> set x" by auto
  have v: "validate_template_params ''{name}'' = {''name''}"
    by (simp add: validate_template_params_def)
  note e = extraction_is_leftmost [of "''{name}''" "''Hi ''" "''name''" "'', your code is {code}''"]
  have eq: "validate_template_params ''{name}'' = all_placeholders ''{name}''"
    using e h by blast
  have scan: "findall_params (''Hi '' @ ''{'' @ ''name'' @ ''}'' @ '', your code is {code}'') =
        ''name'' # findall_params '', your code is {code}''"
  proof -
    have "CHR ''{'' \<notin> set ''Hi '' \<and> ''name'' \<noteq> [] \<and> CHR ''}'' \<notin> set ''name''" by simp
    then show ?thesis using e by blast
  qed
  show ?thesis using sub eq v scan by (intro conjI) simp_all
qed

end
